theory Spec2Isabelle
  imports Complex_Main "HOL-Library.Sublist"
begin

section \<open>SentinelX detection engine: embedding of the documented algorithms\<close>

text \<open>
  The detection, scoring and rate-limiting algorithms of the repository are the Python
  functions \<^verbatim>\<open>detect_sqli\<close>, \<^verbatim>\<open>detect_xss\<close>, \<^verbatim>\<open>detect_path_traversal\<close>,
  \<^verbatim>\<open>calculate_risk_score\<close> and \<^verbatim>\<open>check_rate_limit\<close>. Each is translated below.

  Conventions of the embedding:
  \<^item> a Python \<^verbatim>\<open>float\<close> is a HOL \<open>real\<close> (exact arithmetic; rounding is not modelled);
  \<^item> a Python \<^verbatim>\<open>str\<close> is a \<open>string\<close>, a list of characters with code points 0 to 255;
    the character classes and case folding below are Python's on that range;
  \<^item> a \<^verbatim>\<open>dict\<close> is a map, a missing key read with \<^verbatim>\<open>d[k]\<close> is a \<open>KeyError\<close> value;
  \<^item> the clock \<^verbatim>\<open>time.time()\<close> and the Redis store are explicit arguments, and the
    store is returned updated.
\<close>

subsection \<open>Characters\<close>

definition code :: "char \<Rightarrow> nat" where
  "code c = of_char c"

text \<open>\<^verbatim>\<open>\d\<close>: the decimal digits (on code points below 256 these are 0 to 9).\<close>

definition is_digit :: "char \<Rightarrow> bool" where
  "is_digit c = (48 \<le> code c \<and> code c \<le> 57)"

text \<open>
  \<^verbatim>\<open>\w\<close>: alphanumeric characters and the underscore. Below 128 these are the letters, the
  digits and \<^verbatim>\<open>_\<close>; from 128 to 255 the alphanumeric code points are 170, 178, 179, 181,
  185, 186, 188 to 190 and 192 to 255 without 215 and 247.
\<close>

definition is_word :: "char \<Rightarrow> bool" where
  "is_word c =
     (if 97 \<le> code c \<and> code c \<le> 122 then True
      else if 65 \<le> code c \<and> code c \<le> 90 then True
      else if is_digit c then True
      else if code c = 95 then True
      else if code c \<in> set [170, 178, 179, 181, 185, 186, 188, 189, 190] then True
      else if 192 \<le> code c then code c \<noteq> 215 \<and> code c \<noteq> 247
      else False)"

text \<open>\<^verbatim>\<open>\s\<close>: the whitespace code points below 256.\<close>

definition is_space :: "char \<Rightarrow> bool" where
  "is_space c = (code c \<in> set [9, 10, 11, 12, 13, 28, 29, 30, 31, 32, 133, 160])"

text \<open>
  \<^verbatim>\<open>str.lower()\<close> on one character: A to Z, and 192 to 222 except 215, move up by 32.
  In all of these code points the bit of weight 32 is clear, so that adding 32 sets it.
\<close>

definition is_upper :: "char \<Rightarrow> bool" where
  "is_upper c =
     (if 65 \<le> code c \<and> code c \<le> 90 then True
      else if 192 \<le> code c \<and> code c \<le> 222 then code c \<noteq> 215
      else False)"

fun py_lower :: "char \<Rightarrow> char" where
  "py_lower (Char b0 b1 b2 b3 b4 b5 b6 b7) =
     (if is_upper (Char b0 b1 b2 b3 b4 b5 b6 b7) then Char b0 b1 b2 b3 b4 True b6 b7
      else Char b0 b1 b2 b3 b4 b5 b6 b7)"

definition lower :: "string \<Rightarrow> string" where
  "lower s = map py_lower s"

text \<open>\<^verbatim>\<open>needle in text\<close> on strings: \<open>needle\<close> occurs as a contiguous block of \<open>text\<close>.\<close>

fun str_contains :: "string \<Rightarrow> string \<Rightarrow> bool" where
  "str_contains [] needle = (needle = [])"
| "str_contains (x # xs) needle =
     (if prefix needle (x # xs) then True else str_contains xs needle)"

subsection \<open>Regular expressions: \<^verbatim>\<open>re.search\<close>\<close>

text \<open>
  The patterns of the detectors use literals, the classes \<^verbatim>\<open>.\<close>, \<^verbatim>\<open>\w\<close>, \<^verbatim>\<open>\d\<close>,
  \<^verbatim>\<open>\s\<close> and \<^verbatim>\<open>[^c]\<close>, the repetitions \<^verbatim>\<open>*\<close>, \<^verbatim>\<open>*?\<close> and \<^verbatim>\<open>+\<close> on a single
  character class, the word boundary \<^verbatim>\<open>\b\<close>, and alternation at the top of the pattern.
  A pattern is therefore a list of alternatives, each a list of atoms. \<^verbatim>\<open>re.search\<close> only
  reports whether some match exists, for which the lazy \<^verbatim>\<open>*?\<close> and the greedy \<^verbatim>\<open>*\<close>
  agree, and groups play no role.
\<close>

datatype cclass = AnyChar | WordCh | DigitCh | SpaceCh | NotCh char | Ch char

datatype atom = One cclass | Star cclass | Plus cclass | WordB

type_synonym pattern = "atom list list"

text \<open>
  The first argument is the \<^verbatim>\<open>re.IGNORECASE\<close> flag. The dot matches everything but the
  newline.
\<close>

fun in_class :: "bool \<Rightarrow> cclass \<Rightarrow> char \<Rightarrow> bool" where
  "in_class ic AnyChar x = (code x \<noteq> 10)"
| "in_class ic WordCh x = is_word x"
| "in_class ic DigitCh x = is_digit x"
| "in_class ic SpaceCh x = is_space x"
| "in_class ic (NotCh c) x = (if ic then py_lower x \<noteq> py_lower c else x \<noteq> c)"
| "in_class ic (Ch c) x = (if ic then py_lower x = py_lower c else x = c)"

text \<open>
  \<^verbatim>\<open>\b\<close> holds between a word character and a non-word character, the two ends of the
  text counting as non-word. \<open>prev\<close> is the character before the position, if any.
\<close>

definition at_boundary :: "char option \<Rightarrow> string \<Rightarrow> bool" where
  "at_boundary prev rest =
     ((case prev of None \<Rightarrow> False | Some p \<Rightarrow> is_word p)
      \<noteq> (case rest of [] \<Rightarrow> False | x # _ \<Rightarrow> is_word x))"

text \<open>Does one alternative match at the current position?\<close>

fun match_here :: "bool \<Rightarrow> atom list \<Rightarrow> char option \<Rightarrow> string \<Rightarrow> bool" where
  "match_here ic [] prev rest = True"
| "match_here ic (WordB # as) prev rest =
     (if at_boundary prev rest then match_here ic as prev rest else False)"
| "match_here ic (One c # as) prev [] = False"
| "match_here ic (One c # as) prev (x # xs) =
     (if in_class ic c x then match_here ic as (Some x) xs else False)"
| "match_here ic (Plus c # as) prev [] = False"
| "match_here ic (Plus c # as) prev (x # xs) =
     (if in_class ic c x then match_here ic (Star c # as) (Some x) xs else False)"
| "match_here ic (Star c # as) prev [] = match_here ic as prev []"
| "match_here ic (Star c # as) prev (x # xs) =
     (if match_here ic as prev (x # xs) then True
      else if in_class ic c x then match_here ic (Star c # as) (Some x) xs
      else False)"

text \<open>Does one alternative match at the current or at a later position?\<close>

fun search_from :: "bool \<Rightarrow> atom list \<Rightarrow> char option \<Rightarrow> string \<Rightarrow> bool" where
  "search_from ic as prev [] = match_here ic as prev []"
| "search_from ic as prev (x # xs) =
     (if match_here ic as prev (x # xs) then True else search_from ic as (Some x) xs)"

fun re_search :: "bool \<Rightarrow> pattern \<Rightarrow> string \<Rightarrow> bool" where
  "re_search ic [] text = False"
| "re_search ic (alt # alts) text =
     (if search_from ic alt None text then True else re_search ic alts text)"

definition lit :: "string \<Rightarrow> atom list" where
  "lit s = map (\<lambda>c. One (Ch c)) s"

subsection \<open>Entropy\<close>

text \<open>
  Modelled from the spec: \<^verbatim>\<open>calculate_entropy\<close> is called by \<^verbatim>\<open>detect_sqli\<close> and is not
  part of the source. The specification describes it as the Shannon entropy of the
  character frequency distribution of the text.
\<close>

definition calculate_entropy :: "string \<Rightarrow> real" where
  "calculate_entropy text =
     (if text = [] then 0
      else - (\<Sum>c \<leftarrow> remdups text.
                (real (count_list text c) / real (length text))
                * log 2 (real (count_list text c) / real (length text))))"

subsection \<open>Content detectors\<close>

text \<open>
  The loop \<^verbatim>\<open>for p in ps: if hit(p): confidence += w\<close>, from a given starting confidence.
\<close>

definition accumulate :: "('a \<Rightarrow> bool) \<Rightarrow> real \<Rightarrow> 'a list \<Rightarrow> real \<Rightarrow> real" where
  "accumulate hit w ps confidence = fold (\<lambda>p c. if hit p then c + w else c) ps confidence"

definition sql_keywords :: "string list" where
  "sql_keywords = [''union'', ''select'', ''insert'', ''drop'', ''exec'']"

text \<open>The pattern \<^verbatim>\<open>r'\b' + keyword + r'\b'\<close>.\<close>

definition keyword_pattern :: "string \<Rightarrow> pattern" where
  "keyword_pattern keyword = [[WordB] @ lit keyword @ [WordB]]"

text \<open>
  The three syntax patterns. In the first, alternation binds weakest, so its alternatives
  are \<^verbatim>\<open>\bSELECT\<close>, \<^verbatim>\<open>INSERT\<close>, \<^verbatim>\<open>UPDATE\<close>, \<^verbatim>\<open>DELETE\b.*\bFROM\<close> and \<^verbatim>\<open>WHERE\b\<close>.
  The second is \<^verbatim>\<open>\bOR\b.*\d+\s*=\s*\d+\<close>, the third the comment markers.
\<close>

definition sql_patterns :: "pattern list" where
  "sql_patterns =
    [ [ [WordB] @ lit ''SELECT'',
        lit ''INSERT'',
        lit ''UPDATE'',
        lit ''DELETE'' @ [WordB, Star AnyChar, WordB] @ lit ''FROM'',
        lit ''WHERE'' @ [WordB] ],
      [ [WordB] @ lit ''OR'' @ [WordB, Star AnyChar, Plus DigitCh, Star SpaceCh,
          One (Ch CHR ''=''), Star SpaceCh, Plus DigitCh] ],
      [ lit ''--'', lit ''#'', lit ''/*'', lit ''*/'' ] ]"

definition detect_sqli :: "string \<Rightarrow> real" where
  "detect_sqli text =
     (let confidence = 0;
          confidence = accumulate (\<lambda>keyword. re_search True (keyword_pattern keyword) text)
                         0.2 sql_keywords confidence;
          confidence = accumulate (\<lambda>pattern. re_search True pattern text)
                         0.3 sql_patterns confidence;
          entropy = calculate_entropy text;
          confidence = (if entropy > 4.5 then confidence + 0.2 else confidence)
      in min confidence 1.0)"

text \<open>The seven structural patterns of the XSS detector, in the order of the source.\<close>

definition xss_patterns :: "pattern list" where
  "xss_patterns =
    [ [ lit ''<script'' @ [Star (NotCh CHR ''>''), One (Ch CHR ''>''), Star AnyChar]
          @ lit ''</script>'' ],
      [ lit ''javascript:'' ],
      [ lit ''vbscript:'' ],
      [ lit ''on'' @ [Plus WordCh, Star SpaceCh, One (Ch CHR ''='')] ],
      [ lit ''<iframe'' @ [Star (NotCh CHR ''>''), One (Ch CHR ''>'')] ],
      [ lit ''eval'' @ [Star SpaceCh, One (Ch CHR ''('')] ],
      [ lit ''document.cookie'' ] ]"

definition entities :: "string list" where
  "entities = [''&lt;'', ''&gt;'', ''&#x'', ''&#'']"

definition detect_xss :: "string \<Rightarrow> real" where
  "detect_xss text =
     (let confidence = 0;
          confidence = accumulate (\<lambda>pattern. re_search True pattern text)
                         0.25 xss_patterns confidence;
          entity_count = length (filter (\<lambda>entity. str_contains text entity) entities);
          confidence = (if entity_count > 2 then confidence + 0.1 else confidence)
      in min confidence 1.0)"

text \<open>
  The traversal patterns \<^verbatim>\<open>\.\./\<close>, \<^verbatim>\<open>\.\.\\\<close> (two dots and a backslash),
  \<^verbatim>\<open>%2e%2e%2f\<close> and \<^verbatim>\<open>\.\.%2f\<close>; they are searched without \<^verbatim>\<open>re.IGNORECASE\<close>.
\<close>

definition traversal_patterns :: "pattern list" where
  "traversal_patterns =
    [ [ lit ''../'' ],
      [ lit [CHR ''.'', CHR ''.'', CHR 0x5C] ],
      [ lit ''%2e%2e%2f'' ],
      [ lit ''..%2f'' ] ]"

definition sensitive_files :: "string list" where
  "sensitive_files = [''/etc/passwd'', ''/etc/shadow'', ''/windows/system32'', ''web.config'']"

definition detect_path_traversal :: "string \<Rightarrow> real" where
  "detect_path_traversal path =
     (let confidence = 0;
          confidence = accumulate (\<lambda>pattern. re_search False pattern path)
                         0.4 traversal_patterns confidence;
          confidence = accumulate (\<lambda>sensitive. str_contains (lower path) (lower sensitive))
                         0.5 sensitive_files confidence
      in min confidence 1.0)"

subsection \<open>Risk scoring\<close>

datatype error = KeyError string

text \<open>
  The helpers \<^verbatim>\<open>get_attack_frequency\<close>, \<^verbatim>\<open>analyze_complexity\<close> and \<^verbatim>\<open>get_ip_reputation\<close>
  are not part of the source; the scoring function takes them as arguments. The first and
  the last return dictionaries, the second a number.
\<close>

record services =
  get_attack_frequency :: "string \<Rightarrow> (string \<rightharpoonup> int)"
  analyze_complexity :: "(string \<rightharpoonup> string) \<Rightarrow> real"
  get_ip_reputation :: "string \<Rightarrow> (string \<rightharpoonup> real)"

text \<open>\<^verbatim>\<open>d.get(k, default)\<close>.\<close>

definition dict_get :: "('k \<rightharpoonup> 'v) \<Rightarrow> 'k \<Rightarrow> 'v \<Rightarrow> 'v" where
  "dict_get d k fallback = (case d k of None \<Rightarrow> fallback | Some v \<Rightarrow> v)"

definition type_weights :: "string \<rightharpoonup> real" where
  "type_weights =
     [''sqli'' \<mapsto> 1.5, ''xss'' \<mapsto> 1.3, ''path_traversal'' \<mapsto> 1.4,
      ''command_injection'' \<mapsto> 1.6, ''brute_force'' \<mapsto> 1.1]"

text \<open>The expression \<^verbatim>\<open>type_weights.get(attack_type, 1.0)\<close>.\<close>

definition type_weight :: "string \<Rightarrow> real" where
  "type_weight attack_type = dict_get type_weights attack_type 1.0"

text \<open>
  The expression \<^verbatim>\<open>min(frequency_data['recent_attacks'] / 10, 2.0)\<close>; the division is
  Python's true division.
\<close>

definition frequency_multiplier :: "int \<Rightarrow> real" where
  "frequency_multiplier recent_attacks = min (real_of_int recent_attacks / 10) 2.0"

definition calculate_risk_score ::
    "services \<Rightarrow> real \<Rightarrow> (string \<rightharpoonup> string) \<Rightarrow> string \<Rightarrow> error + real" where
  "calculate_risk_score sv base_confidence request_data attack_type =
     (let base_score = base_confidence * 100 in
      case request_data ''ip'' of
        None \<Rightarrow> Inl (KeyError ''ip'')
      | Some ip \<Rightarrow>
          (case get_attack_frequency sv ip ''recent_attacks'' of
             None \<Rightarrow> Inl (KeyError ''recent_attacks'')
           | Some recent_attacks \<Rightarrow>
               (let complexity_multiplier = analyze_complexity sv request_data;
                    reputation_data = get_ip_reputation sv ip;
                    reputation_multiplier = dict_get reputation_data ''risk_multiplier'' 1.0;
                    risk_score = base_score * frequency_multiplier recent_attacks
                                   * complexity_multiplier * reputation_multiplier
                                   * type_weight attack_type
                in Inr (min risk_score 100.0))))"

text \<open>The clamp of the specification, for comparison with the code's \<open>min\<close>.\<close>

definition clamp :: "real \<Rightarrow> real \<Rightarrow> real \<Rightarrow> real" where
  "clamp x lo hi = max lo (min x hi)"

subsection \<open>Rate limiting on a Redis sorted set\<close>

text \<open>
  A sorted set is a list of (member, score) pairs with pairwise different members; a key
  holds a sorted set and, once \<^verbatim>\<open>EXPIRE\<close> has been called on it, the time at which it
  disappears. The rate limiter stores each timestamp as a member whose score is the same
  timestamp, so members are numbers here. Redis reads the same clock as the caller: the
  first argument of every command is the current time.
\<close>

record zkey =
  members :: "(real \<times> real) list"
  deadline :: "real option"

type_synonym redis = "string \<rightharpoonup> zkey"

text \<open>
  A key whose deadline has passed is gone. (Whether the key is still there at the very
  instant of the deadline makes no difference to the rate limiter: every timestamp it could
  still hold is removed by the range deletion of that call.)
\<close>

definition live :: "real \<Rightarrow> redis \<Rightarrow> string \<Rightarrow> zkey option" where
  "live now db key =
     (case db key of
        None \<Rightarrow> None
      | Some z \<Rightarrow>
          (case deadline z of
             None \<Rightarrow> Some z
           | Some d \<Rightarrow> if d \<le> now then None else Some z))"

text \<open>Adding a member that is already present only replaces its score.\<close>

fun zset_add :: "real \<Rightarrow> real \<Rightarrow> (real \<times> real) list \<Rightarrow> (real \<times> real) list" where
  "zset_add m s [] = [(m, s)]"
| "zset_add m s (e # z) = (if fst e = m then (m, s) # z else e # zset_add m s z)"

definition zadd :: "real \<Rightarrow> redis \<Rightarrow> string \<Rightarrow> real \<Rightarrow> real \<Rightarrow> redis" where
  "zadd now db key member score =
     (case live now db key of
        None \<Rightarrow> db(key \<mapsto> \<lparr>members = [(member, score)], deadline = None\<rparr>)
      | Some z \<Rightarrow> db(key \<mapsto> z\<lparr>members := zset_add member score (members z)\<rparr>))"

text \<open>
  Both bounds of the score range are inclusive: an entry is kept unless its score lies in
  \<open>[lo, hi]\<close>. A sorted set left empty is deleted.
\<close>

definition zremrangebyscore :: "real \<Rightarrow> redis \<Rightarrow> string \<Rightarrow> real \<Rightarrow> real \<Rightarrow> redis" where
  "zremrangebyscore now db key lo hi =
     (case live now db key of
        None \<Rightarrow> db(key := None)
      | Some z \<Rightarrow>
          (let kept = filter (\<lambda>e. if lo \<le> snd e then hi < snd e else True) (members z)
           in if kept = [] then db(key := None) else db(key \<mapsto> z\<lparr>members := kept\<rparr>)))"

definition zcard :: "real \<Rightarrow> redis \<Rightarrow> string \<Rightarrow> nat" where
  "zcard now db key = (case live now db key of None \<Rightarrow> 0 | Some z \<Rightarrow> length (members z))"

text \<open>A time to live that is not positive deletes the key at once.\<close>

definition expire :: "real \<Rightarrow> redis \<Rightarrow> string \<Rightarrow> int \<Rightarrow> redis" where
  "expire now db key seconds =
     (case live now db key of
        None \<Rightarrow> db(key := None)
      | Some z \<Rightarrow>
          if seconds \<le> 0 then db(key := None)
          else db(key \<mapsto> z\<lparr>deadline := Some (now + real_of_int seconds)\<rparr>))"

definition rate_key :: "string \<Rightarrow> string" where
  "rate_key ip = ''rate_limit:'' @ ip"

text \<open>
  \<open>current_time\<close> is the value \<^verbatim>\<open>time.time()\<close> returns in the call. The result is the
  returned flag (\<open>True\<close> allows the request) and the store after the call.
\<close>

definition check_rate_limit :: "real \<Rightarrow> redis \<Rightarrow> string \<Rightarrow> int \<Rightarrow> int \<Rightarrow> bool \<times> redis" where
  "check_rate_limit current_time db ip window max_requests =
     (let key = rate_key ip;
          db = zadd current_time db key current_time current_time;
          db = zremrangebyscore current_time db key 0 (current_time - real_of_int window);
          request_count = zcard current_time db key;
          db = expire current_time db key window
      in (int request_count \<le> max_requests, db))"

text \<open>
  One source issuing requests at the given times, in this order: the flags returned, and
  the store at the end.
\<close>

fun requests :: "redis \<Rightarrow> string \<Rightarrow> int \<Rightarrow> int \<Rightarrow> real list \<Rightarrow> bool list \<times> redis" where
  "requests db ip window max_requests [] = ([], db)"
| "requests db ip window max_requests (t # ts) =
     (let (ok, db1) = check_rate_limit t db ip window max_requests;
          (oks, db2) = requests db1 ip window max_requests ts
      in (ok # oks, db2))"

text \<open>The timestamps stored for a source, as the store holds them.\<close>

definition window_state :: "redis \<Rightarrow> string \<Rightarrow> real list" where
  "window_state db ip = (case db (rate_key ip) of None \<Rightarrow> [] | Some z \<Rightarrow> map snd (members z))"

subsection \<open>Classification\<close>

datatype attack_type = sqli | xss | path_traversal | brute_force | rate_abuse | none

text \<open>
  Modelled from the spec: the step of the inspection orchestrator that reports the rate
  limiter's verdict is not part of the source. The specification says that a deny of the
  rate limiter produces a \<open>rate_abuse\<close> detection.
\<close>

definition rate_limit_detection :: "bool \<Rightarrow> attack_type" where
  "rate_limit_detection allowed = (if allowed then none else rate_abuse)"

text \<open>
  Modelled from the spec: the selection of the primary classification is not part of the
  source. The specification says that the non-zero result of highest confidence wins, ties
  going to the family that comes first in sqli, xss, path_traversal, brute_force,
  rate_abuse. The results are passed in this order and a later one replaces the best so
  far only if its confidence is strictly higher; the start is \<open>none\<close> with confidence 0.
\<close>

fun select_primary :: "(attack_type \<times> real) list \<Rightarrow> attack_type \<times> real \<Rightarrow> attack_type \<times> real" where
  "select_primary [] best = best"
| "select_primary (r # rs) best =
     (if snd r > snd best then select_primary rs r else select_primary rs best)"

text \<open>
  Modelled from the spec: the orchestrator's classification of a text is not part of the
  source. The specification says that all content detectors are run on the text and the
  primary classification is selected among their results.
\<close>

definition classify :: "string \<Rightarrow> attack_type" where
  "classify text =
     fst (select_primary
            [(sqli, detect_sqli text), (xss, detect_xss text),
             (path_traversal, detect_path_traversal text)]
            (none, 0))"

section \<open>Properties\<close>

subsection \<open>Auxiliary facts\<close>

lemmas char_defs =
  code_def is_word_def is_digit_def is_space_def is_upper_def lower_def at_boundary_def lit_def

text \<open>Lower-casing a character adds 32 to the code points it changes.\<close>

lemma py_lower_code: "code (py_lower c) = (if is_upper c then code c + 32 else code c)"
  by (cases c) (auto simp add: code_def is_upper_def split: if_splits)

text \<open>The accumulation loop adds the weight once for every hit.\<close>

lemma accumulate_count:
  "accumulate hit w ps c = c + w * real (length (filter hit ps))"
  unfolding accumulate_def
  by (induction ps arbitrary: c) (simp_all add: algebra_simps)

lemma accumulate_ge: "0 \<le> w \<Longrightarrow> c \<le> accumulate hit w ps c"
  by (simp add: accumulate_count)

lemma detect_sqli_range: "0 \<le> detect_sqli text \<and> detect_sqli text \<le> 1"
proof -
  let ?k = "accumulate (\<lambda>keyword. re_search True (keyword_pattern keyword) text)
              0.2 sql_keywords 0"
  let ?p = "accumulate (\<lambda>pattern. re_search True pattern text) 0.3 sql_patterns ?k"
  have "0 \<le> ?k" by (rule accumulate_ge) simp
  also have "?k \<le> ?p" by (rule accumulate_ge) simp
  finally have "0 \<le> ?p" .
  then show ?thesis by (simp add: detect_sqli_def Let_def)
qed

lemma detect_xss_range: "0 \<le> detect_xss text \<and> detect_xss text \<le> 1"
proof -
  have "0 \<le> accumulate (\<lambda>pattern. re_search True pattern text) 0.25 xss_patterns 0"
    by (rule accumulate_ge) simp
  then show ?thesis by (simp add: detect_xss_def Let_def)
qed

lemma detect_path_traversal_range:
  "0 \<le> detect_path_traversal path \<and> detect_path_traversal path \<le> 1"
proof -
  let ?t = "accumulate (\<lambda>pattern. re_search False pattern path) 0.4 traversal_patterns 0"
  have "0 \<le> ?t" by (rule accumulate_ge) simp
  also have "?t \<le> accumulate (\<lambda>sensitive. str_contains (lower path) (lower sensitive))
                      0.5 sensitive_files ?t"
    by (rule accumulate_ge) simp
  finally show ?thesis by (simp add: detect_path_traversal_def Let_def)
qed

lemma type_weight_values:
  "type_weight ''sqli'' = 1.5"
  "type_weight ''xss'' = 1.3"
  "type_weight ''path_traversal'' = 1.4"
  "type_weight ''brute_force'' = 1.1"
  "type_weight ''rate_abuse'' = 1.0"
  "type_weight ''command_injection'' = 1.6"
  by (simp_all add: type_weight_def type_weights_def dict_get_def)

lemma type_weight_ge_1: "1 \<le> type_weight t"
  by (simp add: type_weight_def type_weights_def dict_get_def)

text \<open>
  The entropy of a text is at most the binary logarithm of its length, so the entropy
  signal of the SQL injection detector never fires on a text of fewer than 23 characters.
\<close>

lemma entropy_le_log_length:
  assumes "text \<noteq> []"
  shows "calculate_entropy text \<le> log 2 (real (length text))"
proof -
  let ?n = "real (length text)"
  let ?p = "\<lambda>c. real (count_list text c) / ?n"
  from assms have n: "0 < ?n" by simp
  have bound: "- (?p c * log 2 (?p c)) \<le> ?p c * log 2 ?n" if "c \<in> set text" for c
  proof -
    from that have k: "1 \<le> real (count_list text c)"
      using count_list_0_iff [of "text" c] by (cases "count_list text c") simp_all
    then have "log 2 (?p c) = log 2 (real (count_list text c)) - log 2 ?n"
      using n by (simp add: log_divide)
    moreover from k have "0 \<le> log 2 (real (count_list text c))" by simp
    ultimately have "- log 2 (?p c) \<le> log 2 ?n" by simp
    moreover have "0 \<le> ?p c" by simp
    ultimately have "?p c * (- log 2 (?p c)) \<le> ?p c * log 2 ?n"
      by (rule mult_left_mono)
    then show ?thesis by simp
  qed
  have "calculate_entropy text = (\<Sum>c \<leftarrow> remdups text. - (?p c * log 2 (?p c)))"
    using assms by (simp add: calculate_entropy_def uminus_sum_list_map o_def)
  also have "\<dots> \<le> (\<Sum>c \<leftarrow> remdups text. ?p c * log 2 ?n)"
    by (rule sum_list_mono) (rule bound, simp)
  also have "\<dots> = (\<Sum>c \<in> set text. ?p c * log 2 ?n)"
    by (simp add: sum_list_distinct_conv_sum_set)
  also have "\<dots> = (\<Sum>c \<in> set text. real (count_list text c) * (log 2 ?n / ?n))"
    by simp
  also have "\<dots> = (\<Sum>c \<in> set text. real (count_list text c)) * (log 2 ?n / ?n)"
    by (simp only: sum_distrib_right)
  also have "(\<Sum>c \<in> set text. real (count_list text c)) = ?n"
    using sum_count_set [of "text" "set text"] by (simp flip: of_nat_sum)
  finally show ?thesis using n by simp
qed

lemma short_text_entropy:
  assumes "length text \<le> 22"
  shows "calculate_entropy text \<le> 4.5"
proof (cases "text = []")
  case True
  then show ?thesis by (simp add: calculate_entropy_def)
next
  case False
  then have "calculate_entropy text \<le> log 2 (real (length text))"
    by (rule entropy_le_log_length)
  also have "\<dots> \<le> log 2 22"
    using False assms by simp
  also have "\<dots> \<le> 4.5"
  proof -
    have "2 * log 2 22 = log 2 (22 ^ 2)" using log_nat_power [of 22 2 2] by simp
    also have "\<dots> \<le> log 2 (2 ^ 9)" by (intro log_mono) simp_all
    also have "\<dots> = real 9" by (rule log_pow_cancel) simp_all
    finally show ?thesis by simp
  qed
  finally show ?thesis .
qed

text \<open>The input of the XSS scenario, evaluated by each detector.\<close>

lemma script_text_hits:
  "map (\<lambda>pattern. re_search True pattern ''<script>alert(document.cookie)</script>'')
     xss_patterns = [True, False, False, False, False, False, True]"
  by (simp add: xss_patterns_def char_defs)


lemma script_text_xss: "detect_xss ''<script>alert(document.cookie)</script>'' = 0.5"
  by (simp add: detect_xss_def accumulate_def xss_patterns_def entities_def char_defs)

lemma script_text_path: "detect_path_traversal ''<script>alert(document.cookie)</script>'' = 0"
  by (simp add: detect_path_traversal_def accumulate_def traversal_patterns_def
        sensitive_files_def char_defs)

lemma script_text_sqli: "detect_sqli ''<script>alert(document.cookie)</script>'' \<le> 0.2"
  by (simp add: detect_sqli_def accumulate_def sql_patterns_def sql_keywords_def
        keyword_pattern_def char_defs Let_def)

text \<open>
  Three further inputs: a boolean injection with a comment marker, a traversal to a
  sensitive file, and a harmless text.
\<close>

lemma further_scenarios:
  "detect_sqli (CHR 0x27 # '' OR 1=1 --'') = 0.6"
  "classify (CHR 0x27 # '' OR 1=1 --'') = sqli"
  "detect_path_traversal ''/../../etc/passwd'' = 0.9"
  "classify ''/../../etc/passwd'' = path_traversal"
  "detect_sqli ''hello world'' = 0"
  "detect_xss ''hello world'' = 0"
  "detect_path_traversal ''hello world'' = 0"
  "classify ''hello world'' = none"
  using short_text_entropy [of "CHR 0x27 # '' OR 1=1 --''"]
    short_text_entropy [of "''/../../etc/passwd''"] short_text_entropy [of "''hello world''"]
  by (simp_all add: classify_def detect_sqli_def detect_xss_def detect_path_traversal_def
        accumulate_def sql_patterns_def sql_keywords_def keyword_pattern_def xss_patterns_def
        entities_def traversal_patterns_def sensitive_files_def char_defs Let_def)

subsection \<open>Risk scoring\<close>

text \<open>
  C1. The claim: every multiplier defaults to 1.0 when its signal is absent, so that for a
  source without history the score is \<open>base_confidence * 100 * complexity * type_weight\<close>
  clamped to 100, and is not zero. The reputation multiplier and the type weight do
  default to 1.0, but the frequency multiplier is \<open>min (recent_attacks / 10) 2.0\<close>, which
  is 0 for a source without recorded attacks, and the product is 0. For confidence 0.9,
  complexity 1 and type sqli the code returns 0 where the claim gives 100.
\<close>

theorem zero_history_score_is_zero:
  "calculate_risk_score
     \<lparr>get_attack_frequency = \<lambda>ip. [''recent_attacks'' \<mapsto> 0],
      analyze_complexity = \<lambda>request_data. 1,
      get_ip_reputation = \<lambda>ip. Map.empty\<rparr>
     0.9 [''ip'' \<mapsto> ''203.0.113.7''] ''sqli'' = Inr 0
   \<and> min (0.9 * 100 * 1 * type_weight ''sqli'') 100 = (100::real)"
  by (simp add: calculate_risk_score_def frequency_multiplier_def type_weight_values)

text \<open>
  The same for every confidence, complexity, reputation and attack type: without recorded
  attacks the score is 0.
\<close>

lemma no_recent_attacks_score:
  assumes "request_data ''ip'' = Some ip"
    and "get_attack_frequency sv ip ''recent_attacks'' = Some 0"
  shows "calculate_risk_score sv base_confidence request_data attack_type = Inr 0"
  using assms by (simp add: calculate_risk_score_def frequency_multiplier_def)

text \<open>
  C2. The claim: for every confidence in [0,1], all multipliers and every attack type the
  score is the product clamped to [0,100]. The code only takes the minimum with 100: a
  negative reputation multiplier gives a negative score.
\<close>

theorem risk_score_negative_multiplier:
  "calculate_risk_score
     \<lparr>get_attack_frequency = \<lambda>ip. [''recent_attacks'' \<mapsto> 10],
      analyze_complexity = \<lambda>request_data. 1,
      get_ip_reputation = \<lambda>ip. [''risk_multiplier'' \<mapsto> - 1]\<rparr>
     1 [''ip'' \<mapsto> ''203.0.113.7''] ''sqli'' = Inr (- 150)
   \<and> clamp (1 * 100 * frequency_multiplier 10 * 1 * (- 1) * type_weight ''sqli'') 0 100 = 0"
  by (simp add: calculate_risk_score_def frequency_multiplier_def dict_get_def
        type_weight_values clamp_def)

text \<open>
  C2, amended: when the request carries an \<open>ip\<close>, the frequency data carries
  \<open>recent_attacks\<close>, and the attack count, the complexity multiplier and the reputation
  multiplier are not negative, then for every confidence in [0,1] and every attack type
  the score is the product of confidence times 100, the frequency multiplier, the
  complexity multiplier, the reputation multiplier and the type weight, clamped to
  [0,100]; it lies in [0,100].
\<close>

theorem risk_score_clamped:
  assumes "0 \<le> base_confidence" and "base_confidence \<le> 1"
    and "request_data ''ip'' = Some ip"
    and "get_attack_frequency sv ip ''recent_attacks'' = Some recent_attacks"
    and "0 \<le> recent_attacks"
    and "0 \<le> analyze_complexity sv request_data"
    and "0 \<le> dict_get (get_ip_reputation sv ip) ''risk_multiplier'' 1.0"
  shows "calculate_risk_score sv base_confidence request_data attack_type =
           Inr (clamp (base_confidence * 100 * frequency_multiplier recent_attacks
                  * analyze_complexity sv request_data
                  * dict_get (get_ip_reputation sv ip) ''risk_multiplier'' 1.0
                  * type_weight attack_type) 0 100)
     \<and> 0 \<le> clamp (base_confidence * 100 * frequency_multiplier recent_attacks
                  * analyze_complexity sv request_data
                  * dict_get (get_ip_reputation sv ip) ''risk_multiplier'' 1.0
                  * type_weight attack_type) 0 100
     \<and> clamp (base_confidence * 100 * frequency_multiplier recent_attacks
                  * analyze_complexity sv request_data
                  * dict_get (get_ip_reputation sv ip) ''risk_multiplier'' 1.0
                  * type_weight attack_type) 0 100 \<le> 100"
proof -
  have f: "0 \<le> frequency_multiplier recent_attacks"
    using assms(5) by (simp add: frequency_multiplier_def)
  have t: "0 \<le> type_weight attack_type"
    using type_weight_ge_1 [of attack_type] by simp
  have "0 \<le> base_confidence * 100 * frequency_multiplier recent_attacks
                  * analyze_complexity sv request_data
                  * dict_get (get_ip_reputation sv ip) ''risk_multiplier'' 1.0
                  * type_weight attack_type"
    using assms(1,6,7) f t by simp
  then show ?thesis
    using assms(3,4) by (simp add: calculate_risk_score_def clamp_def Let_def)
qed

theorem risk_score_clamped_witness:
  "calculate_risk_score
     \<lparr>get_attack_frequency = \<lambda>ip. [''recent_attacks'' \<mapsto> 20],
      analyze_complexity = \<lambda>request_data. 1,
      get_ip_reputation = \<lambda>ip. Map.empty\<rparr>
     0.5 [''ip'' \<mapsto> ''203.0.113.7''] ''xss'' = Inr 100"
  using risk_score_clamped [of "0.5" "[''ip'' \<mapsto> ''203.0.113.7'']" "''203.0.113.7''"
      "\<lparr>get_attack_frequency = \<lambda>ip. [''recent_attacks'' \<mapsto> 20],
        analyze_complexity = \<lambda>request_data. 1,
        get_ip_reputation = \<lambda>ip. Map.empty\<rparr>" 20 "''xss''"]
  by (simp add: dict_get_def frequency_multiplier_def type_weight_values clamp_def)

text \<open>
  C6. The frequency multiplier is \<open>min (recent_attack_count / 10) 2.0\<close>; it never exceeds
  2.0 and it does not decrease when the count grows.
\<close>

theorem frequency_multiplier_monotone_capped:
  "frequency_multiplier n = min (real_of_int n / 10) 2
   \<and> frequency_multiplier n \<le> 2
   \<and> (a \<le> b \<longrightarrow> frequency_multiplier a \<le> frequency_multiplier b)"
  by (simp add: frequency_multiplier_def min_def)

theorem frequency_multiplier_monotone_capped_witness:
  "frequency_multiplier 25 = 2 \<and> frequency_multiplier 3 \<le> frequency_multiplier 25"
  using frequency_multiplier_monotone_capped [of 25 3 25] by simp

text \<open>
  C8. The claim: the type weight is 1.5 for sqli, 1.3 for xss, 1.4 for path_traversal, 1.1
  for brute_force, 1.0 for rate_abuse and 1.0 for every other type. The table of the code
  has a sixth entry: command_injection weighs 1.6.
\<close>

theorem type_weight_command_injection:
  "type_weight ''command_injection'' = 1.6 \<and> type_weight ''command_injection'' \<noteq> 1.0"
  by (simp add: type_weight_values)

text \<open>
  C8, amended: the weights are 1.5 for sqli, 1.3 for xss, 1.4 for path_traversal, 1.1 for
  brute_force, 1.6 for command_injection, 1.0 for rate_abuse, and 1.0 for every type
  that is none of sqli, xss, path_traversal, command_injection and brute_force.
\<close>

theorem type_weight_table:
  "type_weight ''sqli'' = 1.5
   \<and> type_weight ''xss'' = 1.3
   \<and> type_weight ''path_traversal'' = 1.4
   \<and> type_weight ''brute_force'' = 1.1
   \<and> type_weight ''command_injection'' = 1.6
   \<and> type_weight ''rate_abuse'' = 1.0
   \<and> (t \<notin> set [''sqli'', ''xss'', ''path_traversal'', ''command_injection'', ''brute_force'']
        \<longrightarrow> type_weight t = 1.0)"
  by (simp add: type_weight_def type_weights_def dict_get_def)

theorem type_weight_table_witness:
  "type_weight ''none'' = 1.0"
  using type_weight_table [of "''none''"] by simp

subsection \<open>Content detectors\<close>

text \<open>
  C5. For every input, each of the three content detectors returns a confidence in [0,1].
\<close>

theorem detector_confidence_in_unit_interval:
  "0 \<le> detect_sqli text \<and> detect_sqli text \<le> 1
   \<and> 0 \<le> detect_xss text \<and> detect_xss text \<le> 1
   \<and> 0 \<le> detect_path_traversal text \<and> detect_path_traversal text \<le> 1"
  using detect_sqli_range [of "text"] detect_xss_range [of "text"]
    detect_path_traversal_range [of "text"]
  by simp

text \<open>
  C3. The claim: for the text \<^verbatim>\<open><script>alert(document.cookie)</script>\<close> the XSS detector
  returns at least 0.75 and the request is classified xss. Two of the seven patterns
  match, the script tag and the cookie access, each adding 0.25: the confidence is 0.5.
\<close>

theorem xss_scenario_below_075:
  "detect_xss ''<script>alert(document.cookie)</script>'' < 0.75"
  by (simp add: script_text_xss)

text \<open>
  C3, amended: for this text the XSS detector returns 0.5 (script tag and cookie access),
  and the request is classified xss.
\<close>

theorem xss_scenario:
  "detect_xss ''<script>alert(document.cookie)</script>'' = 0.5
   \<and> classify ''<script>alert(document.cookie)</script>'' = xss"
  using script_text_sqli
  by (simp add: classify_def script_text_xss script_text_path)

text \<open>
  C10. In the path traversal detector the sensitive-file test compares lower-cased strings,
  while the traversal patterns are searched case-sensitively. The upper-case encoded
  sequence \<^verbatim>\<open>%2E%2E%2F\<close> alone gets confidence 0, its lower-case form 0.4; a sensitive
  file name counts in either case; and two paths that differ only in case, neither
  matching a traversal pattern, get the same confidence.
\<close>

theorem traversal_case_sensitivity:
  "detect_path_traversal ''%2E%2E%2F'' = 0
   \<and> detect_path_traversal ''%2e%2e%2f'' = 0.4
   \<and> detect_path_traversal ''/ETC/PASSWD'' = 0.5
   \<and> detect_path_traversal ''/etc/passwd'' = 0.5
   \<and> (lower p = lower q
        \<and> list_all (\<lambda>pattern. \<not> re_search False pattern p \<and> \<not> re_search False pattern q)
              traversal_patterns
        \<longrightarrow> detect_path_traversal p = detect_path_traversal q)"
proof -
  have a: "detect_path_traversal ''%2E%2E%2F'' = 0"
    by (simp add: detect_path_traversal_def accumulate_def traversal_patterns_def
          sensitive_files_def char_defs)
  have b: "detect_path_traversal ''%2e%2e%2f'' = 0.4"
    by (simp add: detect_path_traversal_def accumulate_def traversal_patterns_def
          sensitive_files_def char_defs)
  have c: "detect_path_traversal ''/ETC/PASSWD'' = 0.5"
    by (simp add: detect_path_traversal_def accumulate_def traversal_patterns_def
          sensitive_files_def char_defs)
  have d: "detect_path_traversal ''/etc/passwd'' = 0.5"
    by (simp add: detect_path_traversal_def accumulate_def traversal_patterns_def
          sensitive_files_def char_defs)
  have e: "detect_path_traversal p = detect_path_traversal q"
    if "lower p = lower q"
      and "list_all (\<lambda>pattern. \<not> re_search False pattern p \<and> \<not> re_search False pattern q)
             traversal_patterns"
  proof -
    from that(2) have "filter (\<lambda>pattern. re_search False pattern p) traversal_patterns = []"
      and "filter (\<lambda>pattern. re_search False pattern q) traversal_patterns = []"
      by (simp_all add: list_all_iff filter_empty_conv)
    with that(1) show ?thesis
      by (simp add: detect_path_traversal_def accumulate_count)
  qed
  from a b c d e show ?thesis by blast
qed

theorem traversal_case_sensitivity_witness:
  "detect_path_traversal ''/Web.Config'' = detect_path_traversal ''/web.config''"
  using traversal_case_sensitivity [of "''/Web.Config''" "''/web.config''"]
  by (simp add: traversal_patterns_def char_defs)

text \<open>
  Extending a text. A pattern without word boundary that matches somewhere in a text
  matches in every text that contains it.
\<close>

lemma star_skip: "match_here ic as p s \<Longrightarrow> match_here ic (Star c # as) p s"
  by (cases s) simp_all

lemma match_here_extend:
  "WordB \<notin> set as \<Longrightarrow> match_here ic as p s \<Longrightarrow> match_here ic as p' (s @ post)"
proof (induction ic as p s arbitrary: p' rule: match_here.induct)
  case (7 ic c as prev)
  then have "match_here ic as p' post" by simp
  then show ?case by (simp add: star_skip)
next
  case (8 ic c as prev x xs)
  show ?case
  proof (cases "match_here ic as prev (x # xs)")
    case True
    with 8 have "match_here ic as p' ((x # xs) @ post)" by simp
    then show ?thesis by simp
  next
    case False
    with 8 have "in_class ic c x" and "match_here ic (Star c # as) (Some x) xs"
      by (auto split: if_splits)
    with 8 False have "match_here ic (Star c # as) (Some x) (xs @ post)" by simp
    with \<open>in_class ic c x\<close> show ?thesis by simp
  qed
qed (auto split: if_splits)

lemma match_here_search: "match_here ic as p s \<Longrightarrow> search_from ic as p s"
  by (cases s) simp_all

lemma search_from_extend_right:
  "WordB \<notin> set as \<Longrightarrow> search_from ic as p s \<Longrightarrow> search_from ic as p' (s @ post)"
proof (induction s arbitrary: p p')
  case Nil
  then have "match_here ic as p []" by simp
  with Nil.prems(1) have "match_here ic as p' ([] @ post)" by (rule match_here_extend)
  then show ?case by (simp add: match_here_search)
next
  case (Cons x xs)
  show ?case
  proof (cases "match_here ic as p (x # xs)")
    case True
    with Cons have "match_here ic as p' ((x # xs) @ post)" by (intro match_here_extend)
    then show ?thesis by simp
  next
    case False
    with Cons have "search_from ic as (Some x) (xs @ post)" by simp
    then show ?thesis by simp
  qed
qed

lemma search_from_extend:
  assumes "WordB \<notin> set as" and "search_from ic as p s"
  shows "search_from ic as p' (pre @ s @ post)"
proof (induction pre arbitrary: p')
  case Nil
  from assms show ?case by (simp add: search_from_extend_right)
next
  case (Cons x pre)
  then show ?case by simp
qed

lemma re_search_extend:
  "\<forall>as \<in> set pat. WordB \<notin> set as \<Longrightarrow> re_search ic pat s \<Longrightarrow> re_search ic pat (pre @ s @ post)"
proof (induction pat)
  case Nil
  then show ?case by simp
next
  case (Cons a pat)
  show ?case
  proof (cases "search_from ic a None s")
    case True
    with Cons have "search_from ic a None (pre @ s @ post)" by (simp add: search_from_extend)
    then show ?thesis by simp
  next
    case False
    with Cons show ?thesis by simp
  qed
qed

lemma str_contains_sublist: "str_contains s n = sublist n s"
  by (induction s) (simp_all add: sublist_Cons_right)

lemma str_contains_extend: "str_contains s n \<Longrightarrow> str_contains (pre @ s @ post) n"
proof -
  assume "str_contains s n"
  then obtain ps ss where "s = ps @ n @ ss"
    by (auto simp add: str_contains_sublist sublist_def)
  then have "pre @ s @ post = (pre @ ps) @ n @ (ss @ post)" by simp
  then have "sublist n (pre @ s @ post)" unfolding sublist_def by blast
  then show ?thesis by (simp add: str_contains_sublist)
qed

lemma accumulate_mono:
  "(\<And>p. p \<in> set ps \<Longrightarrow> hit p \<Longrightarrow> hit' p) \<Longrightarrow> 0 \<le> w \<Longrightarrow> c \<le> c'
   \<Longrightarrow> accumulate hit w ps c \<le> accumulate hit' w ps c'"
  unfolding accumulate_def
proof (induction ps arbitrary: c c')
  case Nil
  then show ?case by simp
next
  case (Cons a ps)
  have "(if hit a then c + w else c) \<le> (if hit' a then c' + w else c')"
    using Cons.prems by auto
  with Cons show ?case by simp
qed

lemma filter_length_mono:
  "(\<And>p. p \<in> set ps \<Longrightarrow> P p \<Longrightarrow> Q p) \<Longrightarrow> length (filter P ps) \<le> length (filter Q ps)"
  by (induction ps) auto

lemma xss_patterns_boundary_free: "\<forall>pat \<in> set xss_patterns. \<forall>as \<in> set pat. WordB \<notin> set as"
  by (auto simp add: xss_patterns_def lit_def)

lemma traversal_patterns_boundary_free:
  "\<forall>pat \<in> set traversal_patterns. \<forall>as \<in> set pat. WordB \<notin> set as"
  by (auto simp add: traversal_patterns_def lit_def)

text \<open>
  C7. The claim: for every detector, extending a text by a further occurrence of a
  matching pattern never lowers the confidence. The keyword patterns of the SQL injection
  detector, and some of its syntax patterns, are anchored at word boundaries, and a match
  that ends the text is lost when a word character is appended. \<^verbatim>\<open>where\<close> matches
  \<^verbatim>\<open>WHERE\b\<close> and scores at least 0.3; with the keyword \<^verbatim>\<open>select\<close> appended (which alone
  scores at least 0.5) no keyword and no pattern matches any more, whatever the entropy.
  \<^verbatim>\<open>where drop\<close> scores 0.5; appending \<^verbatim>\<open>update\<close>, which alone scores 0.3 and which the
  first syntax pattern matches where it is appended, loses the keyword \<^verbatim>\<open>drop\<close> and
  adds nothing: the score falls to 0.3.
\<close>

theorem sqli_extension_decreases:
  "detect_sqli (''where'' @ ''select'') < detect_sqli ''where''
   \<and> 0.5 \<le> detect_sqli ''select''
   \<and> detect_sqli ''where drop'' = 0.5
   \<and> detect_sqli ''update'' = 0.3
   \<and> detect_sqli (''where drop'' @ ''update'') = 0.3"
proof -
  have a: "detect_sqli (''where'' @ ''select'') < detect_sqli ''where''
           \<and> 0.5 \<le> detect_sqli ''select''"
    by (simp add: detect_sqli_def accumulate_def sql_patterns_def sql_keywords_def
          keyword_pattern_def char_defs Let_def)
  have b: "detect_sqli ''where drop'' = 0.5"
    using short_text_entropy [of "''where drop''"]
    by (simp add: detect_sqli_def accumulate_def sql_patterns_def sql_keywords_def
          keyword_pattern_def char_defs Let_def)
  have c: "detect_sqli ''update'' = 0.3"
    using short_text_entropy [of "''update''"]
    by (simp add: detect_sqli_def accumulate_def sql_patterns_def sql_keywords_def
          keyword_pattern_def char_defs Let_def)
  have d: "detect_sqli (''where drop'' @ ''update'') = 0.3"
    using short_text_entropy [of "''where dropupdate''"]
    by (simp add: detect_sqli_def accumulate_def sql_patterns_def sql_keywords_def
          keyword_pattern_def char_defs Let_def)
  from a b c d show ?thesis by simp
qed

text \<open>
  C7, amended: for the XSS detector and the path traversal detector, extending a text
  on either side, by any text, never lowers the confidence.
\<close>

theorem extension_never_decreases:
  "detect_xss text \<le> detect_xss (pre @ text @ post)
   \<and> detect_path_traversal text \<le> detect_path_traversal (pre @ text @ post)"
proof
  show "detect_xss text \<le> detect_xss (pre @ text @ post)"
  proof -
    let ?t = "pre @ text @ post"
    let ?a = "\<lambda>t. accumulate (\<lambda>pattern. re_search True pattern t) 0.25 xss_patterns 0"
    let ?n = "\<lambda>t. length (filter (\<lambda>entity. str_contains t entity) entities)"
    have a: "?a text \<le> ?a ?t"
      using xss_patterns_boundary_free by (intro accumulate_mono) (auto intro: re_search_extend)
    have n: "?n text \<le> ?n ?t"
      by (intro filter_length_mono) (rule str_contains_extend)
    have "(if ?n text > 2 then ?a text + 0.1 else ?a text) \<le> (if ?n ?t > 2 then ?a ?t + 0.1 else ?a ?t)"
      using a n by auto
    then show ?thesis
      unfolding detect_xss_def Let_def by (rule min.mono) simp
  qed
next
  show "detect_path_traversal text \<le> detect_path_traversal (pre @ text @ post)"
  proof -
    let ?t = "pre @ text @ post"
    let ?a = "\<lambda>t. accumulate (\<lambda>pattern. re_search False pattern t) 0.4 traversal_patterns 0"
    have a: "?a text \<le> ?a ?t"
      using traversal_patterns_boundary_free by (intro accumulate_mono) (auto intro: re_search_extend)
    have "accumulate (\<lambda>sensitive. str_contains (lower text) (lower sensitive)) 0.5 sensitive_files (?a text)
          \<le> accumulate (\<lambda>sensitive. str_contains (lower ?t) (lower sensitive)) 0.5 sensitive_files (?a ?t)"
    proof (rule accumulate_mono)
      fix sensitive
      assume "str_contains (lower text) (lower sensitive)"
      then have "str_contains (lower pre @ lower text @ lower post) (lower sensitive)"
        by (rule str_contains_extend)
      then show "str_contains (lower ?t) (lower sensitive)" by (simp add: lower_def)
    next
      show "(0::real) \<le> 0.5" by simp
    next
      show "?a text \<le> ?a ?t" by (rule a)
    qed
    then show ?thesis
      unfolding detect_path_traversal_def Let_def by (rule min.mono) simp
  qed
qed

subsection \<open>Rate limiting\<close>

lemma live_earlier: "t \<le> L \<Longrightarrow> live L db k = Some z \<Longrightarrow> live t db k = Some z"
  by (auto simp add: live_def split: option.splits if_splits)

lemma live_stored: "live t db k = Some z \<Longrightarrow> db k = Some z"
  by (auto simp add: live_def split: option.splits if_splits)

lemma zset_add_new: "(m, s) \<in> set (zset_add m s z)"
  by (induction z) auto

lemma zset_add_keeps: "e \<in> set z \<Longrightarrow> fst e \<noteq> m \<Longrightarrow> e \<in> set (zset_add m s z)"
  by (induction z) auto

lemma zset_add_scores: "e \<in> set (zset_add m s z) \<Longrightarrow> e = (m, s) \<or> e \<in> set z"
  by (induction z) (auto split: if_splits)

lemma check_rate_limit_step:
  "check_rate_limit t db ip w m =
     (let M = (case live t db (rate_key ip) of None \<Rightarrow> [] | Some z \<Rightarrow> members z);
          K = filter (\<lambda>e. if 0 \<le> snd e then t - real_of_int w < snd e else True) (zset_add t t M)
      in (int (length K) \<le> m,
          if K = [] \<or> w \<le> 0 then db(rate_key ip := None)
          else db(rate_key ip \<mapsto> \<lparr>members = K, deadline = Some (t + real_of_int w)\<rparr>)))"
  by (cases "live t db (rate_key ip)")
     (auto simp add: check_rate_limit_def zadd_def zremrangebyscore_def zcard_def expire_def
        live_def Let_def split: option.splits if_splits)

lemma requests_Cons:
  "requests db ip w m (t # ts) =
     (fst (check_rate_limit t db ip w m)
        # fst (requests (snd (check_rate_limit t db ip w m)) ip w m ts),
      snd (requests (snd (check_rate_limit t db ip w m)) ip w m ts))"
  by (simp add: case_prod_beta Let_def)

lemma requests_length: "length (fst (requests db ip w m ts)) = length ts"
  by (induction ts arbitrary: db) (simp_all add: requests_Cons del: requests.simps(2))

lemma requests_empty: "fst (requests db ip w m ts) = [] \<longleftrightarrow> ts = []"
  using requests_length [of db ip w m ts] by auto

lemma step_keeps:
  assumes w: "0 < w" and t: "L - real_of_int w < t" "t \<le> L"
    and S: "\<forall>s \<in> S. L - real_of_int w < s
              \<and> (\<exists>z. live L db (rate_key ip) = Some z \<and> (s, s) \<in> set (members z))"
    and fin: "finite S"
  shows "\<forall>s \<in> insert t S. L - real_of_int w < s
           \<and> (\<exists>z. live L (snd (check_rate_limit t db ip w m)) (rate_key ip) = Some z
                 \<and> (s, s) \<in> set (members z))"
    and "fst (check_rate_limit t db ip w m) \<Longrightarrow> int (card (insert t S)) \<le> m"
proof -
  define M where "M = (case live t db (rate_key ip) of None \<Rightarrow> [] | Some z \<Rightarrow> members z)"
  define K where
    "K = filter (\<lambda>e. if 0 \<le> snd e then t - real_of_int w < snd e else True) (zset_add t t M)"
  have new: "(t, t) \<in> set K"
    using w by (simp add: K_def zset_add_new)
  have old: "(s, s) \<in> set K" if "s \<in> S" for s
  proof -
    from S that obtain z where z: "live L db (rate_key ip) = Some z" "(s, s) \<in> set (members z)"
      and s: "L - real_of_int w < s" by blast
    from t(2) z(1) have "live t db (rate_key ip) = Some z" by (rule live_earlier)
    with z(2) have "(s, s) \<in> set M" by (simp add: M_def)
    then have "(s, s) \<in> set (zset_add t t M)"
      by (cases "s = t") (simp_all add: zset_add_new zset_add_keeps)
    with s t(2) show ?thesis by (simp add: K_def)
  qed
  from new have ne: "K \<noteq> []" by auto
  have res: "check_rate_limit t db ip w m =
      (int (length K) \<le> m, db(rate_key ip \<mapsto> \<lparr>members = K, deadline = Some (t + real_of_int w)\<rparr>))"
    using w ne by (simp add: check_rate_limit_step Let_def M_def [symmetric] K_def [symmetric])
  have lv: "live L (snd (check_rate_limit t db ip w m)) (rate_key ip)
              = Some \<lparr>members = K, deadline = Some (t + real_of_int w)\<rparr>"
    using t(1) by (simp add: res live_def)
  show "\<forall>s \<in> insert t S. L - real_of_int w < s
           \<and> (\<exists>z. live L (snd (check_rate_limit t db ip w m)) (rate_key ip) = Some z
                 \<and> (s, s) \<in> set (members z))"
    using S t(1) new old by (auto simp add: lv)
  have "(\<lambda>s. (s, s)) ` insert t S \<subseteq> set K"
    using new old by auto
  then have "card ((\<lambda>s. (s, s)) ` insert t S) \<le> card (set K)"
    by (intro card_mono) simp_all
  moreover have "card ((\<lambda>s. (s, s)) ` insert t S) = card (insert t S)"
    by (intro card_image) (simp add: inj_on_def)
  moreover have "card (set K) \<le> length K" by (rule card_length)
  ultimately have "card (insert t S) \<le> length K" by simp
  then show "int (card (insert t S)) \<le> m" if "fst (check_rate_limit t db ip w m)"
    using that by (simp add: res)
qed

lemma requests_last:
  assumes "0 < w" and "ts \<noteq> []" and "finite S"
    and "\<forall>t \<in> set ts. L - real_of_int w < t \<and> t \<le> L"
    and "\<forall>s \<in> S. L - real_of_int w < s
              \<and> (\<exists>z. live L db (rate_key ip) = Some z \<and> (s, s) \<in> set (members z))"
    and "last (fst (requests db ip w m ts))"
  shows "int (card (S \<union> set ts)) \<le> m"
  using assms(2-)
proof (induction ts arbitrary: db S)
  case Nil
  then show ?case by simp
next
  case (Cons t ts)
  let ?db = "snd (check_rate_limit t db ip w m)"
  from Cons.prems have t: "L - real_of_int w < t" "t \<le> L" by simp_all
  note step = step_keeps [OF assms(1) t Cons.prems(4) Cons.prems(2), of m]
  show ?case
  proof (cases "ts = []")
    case True
    with Cons.prems(5) have "fst (check_rate_limit t db ip w m)"
      by (simp add: requests_Cons del: requests.simps(2))
    then have "int (card (insert t S)) \<le> m" by (rule step(2))
    with True show ?thesis by simp
  next
    case False
    with Cons.prems(5) have "last (fst (requests ?db ip w m ts))"
      by (simp add: requests_Cons requests_empty del: requests.simps(2))
    with False Cons.prems(2,3) step(1) have "int (card (insert t S \<union> set ts)) \<le> m"
      by (intro Cons.IH) simp_all
    then show ?thesis by simp
  qed
qed

lemma zset_add_distinct: "distinct (map fst z) \<Longrightarrow> distinct (map fst (zset_add m s z))"
proof (induction z)
  case Nil
  then show ?case by simp
next
  case (Cons e z)
  have "fst ` set (zset_add m s z) \<subseteq> insert m (fst ` set z)"
    using zset_add_scores [of _ m s z] by force
  with Cons show ?case by auto
qed

lemma step_result:
  fixes t :: real and db :: redis and ip :: string and w :: int
  assumes "0 < w"
  defines "M \<equiv> (case live t db (rate_key ip) of None \<Rightarrow> [] | Some z \<Rightarrow> members z)"
  defines "K \<equiv> filter (\<lambda>e. if 0 \<le> snd e then t - real_of_int w < snd e else True) (zset_add t t M)"
  shows "check_rate_limit t db ip w m =
      (int (length K) \<le> m, db(rate_key ip \<mapsto> \<lparr>members = K, deadline = Some (t + real_of_int w)\<rparr>))"
proof -
  have "(t, t) \<in> set K" using assms(1) by (simp add: K_def zset_add_new)
  then have "K \<noteq> []" by auto
  with assms(1) show ?thesis
    by (simp add: check_rate_limit_step Let_def M_def [symmetric] K_def [symmetric])
qed

text \<open>The members stored for a source are timestamps of its requests, each once.\<close>

lemma step_members:
  assumes w: "0 < w"
    and inv: "\<forall>z. db (rate_key ip) = Some z \<longrightarrow>
               distinct (map fst (members z)) \<and> set (members z) \<subseteq> (\<lambda>s. (s, s)) ` T"
  shows "\<forall>z. snd (check_rate_limit t db ip w m) (rate_key ip) = Some z \<longrightarrow>
               distinct (map fst (members z)) \<and> set (members z) \<subseteq> (\<lambda>s. (s, s)) ` insert t T"
    and "card {s \<in> insert t T. if 0 \<le> s then t - real_of_int w < s else True} \<le> nat m
         \<Longrightarrow> finite T \<Longrightarrow> 0 \<le> m \<Longrightarrow> fst (check_rate_limit t db ip w m)"
proof -
  define M where "M = (case live t db (rate_key ip) of None \<Rightarrow> [] | Some z \<Rightarrow> members z)"
  define K where
    "K = filter (\<lambda>e. if 0 \<le> snd e then t - real_of_int w < snd e else True) (zset_add t t M)"
  have res: "check_rate_limit t db ip w m =
      (int (length K) \<le> m, db(rate_key ip \<mapsto> \<lparr>members = K, deadline = Some (t + real_of_int w)\<rparr>))"
    unfolding K_def M_def using w by (rule step_result)
  have M: "distinct (map fst M) \<and> set M \<subseteq> (\<lambda>s. (s, s)) ` T"
  proof (cases "live t db (rate_key ip)")
    case None
    then show ?thesis by (simp add: M_def)
  next
    case (Some z)
    then have "db (rate_key ip) = Some z" by (rule live_stored)
    with inv Some show ?thesis by (simp add: M_def)
  qed
  then have d: "distinct (map fst (zset_add t t M))" by (simp add: zset_add_distinct)
  have s: "set (zset_add t t M) \<subseteq> (\<lambda>s. (s, s)) ` insert t T"
    using M zset_add_scores [of _ t t M] by auto
  from d have dK: "distinct (map fst K)" by (simp add: K_def distinct_map_filter)
  from s have sK: "set K \<subseteq> (\<lambda>s. (s, s)) ` {s \<in> insert t T. if 0 \<le> s then t - real_of_int w < s else True}"
    by (auto simp add: K_def)
  from dK sK show "\<forall>z. snd (check_rate_limit t db ip w m) (rate_key ip) = Some z \<longrightarrow>
               distinct (map fst (members z)) \<and> set (members z) \<subseteq> (\<lambda>s. (s, s)) ` insert t T"
    by (auto simp add: res)
  show "fst (check_rate_limit t db ip w m)"
    if c: "card {s \<in> insert t T. if 0 \<le> s then t - real_of_int w < s else True} \<le> nat m"
      and fin: "finite T" and m: "0 \<le> m"
  proof -
    from dK have "distinct K" by (simp add: distinct_map)
    then have "length K = card (set K)" by (simp add: distinct_card)
    also have "\<dots> \<le> card ((\<lambda>s. (s, s)) ` {s \<in> insert t T. if 0 \<le> s then t - real_of_int w < s else True})"
      using sK fin by (intro card_mono) simp_all
    also have "\<dots> \<le> card {s \<in> insert t T. if 0 \<le> s then t - real_of_int w < s else True}"
      using fin by (intro card_image_le) simp
    finally have "length K \<le> nat m" using c by simp
    with m show ?thesis by (simp add: res)
  qed
qed

lemma requests_last_allowed:
  assumes "0 < w" and "0 \<le> m" and "ts \<noteq> []" and "finite T"
    and "\<forall>z. db (rate_key ip) = Some z \<longrightarrow>
               distinct (map fst (members z)) \<and> set (members z) \<subseteq> (\<lambda>s. (s, s)) ` T"
    and "card {s \<in> T \<union> set ts. if 0 \<le> s then last ts - real_of_int w < s else True} \<le> nat m"
  shows "last (fst (requests db ip w m ts))"
  using assms(3-)
proof (induction ts arbitrary: db T)
  case Nil
  then show ?case by simp
next
  case (Cons t ts)
  note step = step_members [where db = db and T = T and ip = ip and w = w and t = t and m = m,
      OF assms(1) Cons.prems(3)]
  show ?case
  proof (cases "ts = []")
    case True
    then have "T \<union> set (t # ts) = insert t T" and "last (t # ts) = t" by simp_all
    with Cons.prems(4)
    have "card {s \<in> insert t T. if 0 \<le> s then t - real_of_int w < s else True} \<le> nat m"
      by (simp only:)
    then have "fst (check_rate_limit t db ip w m)"
      using Cons.prems(2) assms(2) by (rule step(2))
    with True show ?thesis by (simp add: requests_Cons del: requests.simps(2))
  next
    case False
    have "last (fst (requests (snd (check_rate_limit t db ip w m)) ip w m ts))"
    proof (rule Cons.IH [where T = "insert t T"])
      from False have "insert t T \<union> set ts = T \<union> set (t # ts)" and "last ts = last (t # ts)"
        by simp_all
      with Cons.prems(4)
      show "card {s \<in> insert t T \<union> set ts. if 0 \<le> s then last ts - real_of_int w < s else True} \<le> nat m"
        by (simp only:)
    qed (use False Cons.prems(2) step(1) in simp_all)
    with False show ?thesis
      by (simp add: requests_Cons requests_empty del: requests.simps(2))
  qed
qed

text \<open>
  C4. The claim: with a window of 60 seconds and at most 100 requests, the 101st of 101
  requests of one source within 60 seconds is denied and classified \<open>rate_abuse\<close>. The
  sorted set holds each timestamp once, and the range removed includes the timestamp
  \<open>now - window\<close> itself. So 101 requests at the same instant are counted as one, and of
  101 requests spread evenly over exactly 60 seconds the first is dropped when the last
  arrives: in both runs the 101st request is allowed.
\<close>

theorem burst_allowed:
  "last (fst (requests Map.empty ''203.0.113.7'' 60 100 (replicate 101 1000)))
   \<and> last (fst (requests Map.empty ''203.0.113.7'' 60 100
                  (map (\<lambda>i. 1000 + 3 * real i / 5) [0..<101])))"
proof
  show "last (fst (requests Map.empty ''203.0.113.7'' 60 100 (replicate 101 1000)))"
  proof (rule requests_last_allowed [where T = "{}"])
    have "{s \<in> {} \<union> set (replicate 101 (1000::real)). if 0 \<le> s then last (replicate 101 1000) - real_of_int 60 < s else True} = {1000}"
      by auto
    then show "card {s \<in> {} \<union> set (replicate 101 (1000::real)). if 0 \<le> s then last (replicate 101 1000) - real_of_int 60 < s else True} \<le> nat 100"
      by simp
  qed simp_all
next
  show "last (fst (requests Map.empty ''203.0.113.7'' 60 100 (map (\<lambda>i. 1000 + 3 * real i / 5) [0..<101])))"
  proof (rule requests_last_allowed [where T = "{}"])
    let ?f = "\<lambda>i. 1000 + 3 * real i / 5"
    let ?ts = "map ?f [0..<101]"
    have l: "last ?ts = 1060" by (simp add: last_map)
    have "{s \<in> {} \<union> set ?ts. if 0 \<le> s then last ?ts - real_of_int 60 < s else True} = ?f ` {1..<101}"
      unfolding l by (auto simp add: image_iff) 
    moreover have "card (?f ` {1..<101}) = card {1..<101::nat}"
      by (intro card_image) (simp add: inj_on_def)
    ultimately show "card {s \<in> {} \<union> set ?ts. if 0 \<le> s then last ?ts - real_of_int 60 < s else True} \<le> nat 100"
      by simp
  qed simp_all
qed

text \<open>
  C4, amended: with a window of 60 seconds and at most 100 requests, if one source issues
  101 requests at pairwise different times, none later than the last and each less than
  60 seconds before it, then the 101st request is denied, whatever the store held before,
  and the deny is a \<open>rate_abuse\<close> detection.
\<close>

theorem burst_denied:
  assumes "length ts = 101" and "distinct ts"
    and "\<forall>t \<in> set ts. last ts - 60 < t \<and> t \<le> last ts"
  shows "last (fst (requests db ip 60 100 ts)) = False
     \<and> rate_limit_detection (last (fst (requests db ip 60 100 ts))) = rate_abuse"
proof -
  from assms(1) have ne: "ts \<noteq> []" by auto
  have "\<not> last (fst (requests db ip 60 100 ts))"
  proof
    assume "last (fst (requests db ip 60 100 ts))"
    with ne assms(3) have "int (card ({} \<union> set ts)) \<le> 100"
      by (intro requests_last [where L = "last ts" and w = 60 and db = db and ip = ip]) simp_all
    with assms(1,2) show False by (simp add: distinct_card)
  qed
  then show ?thesis by (simp add: rate_limit_detection_def)
qed

theorem burst_denied_witness:
  "last (fst (requests Map.empty ''203.0.113.7'' 60 100
                (map (\<lambda>i. 1000 + real i / 2) [0..<101]))) = False"
proof -
  let ?ts = "map (\<lambda>i. 1000 + real i / 2) [0..<101]"
  have l: "length ?ts = 101" by simp
  have d: "distinct ?ts" by (simp add: distinct_map inj_on_def)
  have "last ?ts = 1050" by (simp add: last_map)
  then have r: "\<forall>t \<in> set ?ts. last ?ts - 60 < t \<and> t \<le> last ?ts" by auto
  from burst_denied [OF l d r, of Map.empty "''203.0.113.7''"] show ?thesis by simp
qed

text \<open>
  A timestamp that is stored stays stored through every later check made less than a
  window after it, and is counted by each of them: such a check at another time counts at
  least two requests.
\<close>

lemma later_step:
  assumes w: "0 < w" and t: "now \<le> t" "t < now + real_of_int w"
    and inv: "\<exists>z. db (rate_key ip) = Some z \<and> (now, now) \<in> set (members z)
                \<and> (\<forall>d. deadline z = Some d \<longrightarrow> now + real_of_int w \<le> d)"
  shows "\<exists>z. snd (check_rate_limit t db ip w m) (rate_key ip) = Some z
              \<and> (now, now) \<in> set (members z)
              \<and> (\<forall>d. deadline z = Some d \<longrightarrow> now + real_of_int w \<le> d)"
    and "m < 2 \<Longrightarrow> t \<noteq> now \<Longrightarrow> \<not> fst (check_rate_limit t db ip w m)"
proof -
  from inv obtain z where z: "db (rate_key ip) = Some z" "(now, now) \<in> set (members z)"
    "\<forall>d. deadline z = Some d \<longrightarrow> now + real_of_int w \<le> d" by blast
  from z(1,3) t(2) have lv: "live t db (rate_key ip) = Some z"
    by (cases "deadline z") (auto simp add: live_def)
  define K where
    "K = filter (\<lambda>e. if 0 \<le> snd e then t - real_of_int w < snd e else True)
           (zset_add t t (members z))"
  have res: "check_rate_limit t db ip w m =
      (int (length K) \<le> m,
       db(rate_key ip \<mapsto> \<lparr>members = K, deadline = Some (t + real_of_int w)\<rparr>))"
    using w by (simp add: step_result lv K_def)
  have "(now, now) \<in> set (zset_add t t (members z))"
    using z(2) by (cases "now = t") (simp_all add: zset_add_new zset_add_keeps)
  with t(2) have old: "(now, now) \<in> set K" by (simp add: K_def)
  have new: "(t, t) \<in> set K" using w by (simp add: K_def zset_add_new)
  from old t(1) show "\<exists>z. snd (check_rate_limit t db ip w m) (rate_key ip) = Some z
              \<and> (now, now) \<in> set (members z)
              \<and> (\<forall>d. deadline z = Some d \<longrightarrow> now + real_of_int w \<le> d)"
    by (simp add: res)
  show "\<not> fst (check_rate_limit t db ip w m)" if "m < 2" and "t \<noteq> now"
  proof -
    from old new have "{(now, now), (t, t)} \<subseteq> set K" by simp
    then have "card {(now, now), (t, t)} \<le> card (set K)" by (intro card_mono) simp_all
    also have "\<dots> \<le> length K" by (rule card_length)
    finally have "2 \<le> length K" using that(2) by simp
    with that(1) show ?thesis by (simp add: res)
  qed
qed

lemma later_checks:
  assumes w: "0 < w"
    and ts: "\<forall>t \<in> set ts. now \<le> t \<and> t < now + real_of_int w"
    and inv: "\<exists>z. db (rate_key ip) = Some z \<and> (now, now) \<in> set (members z)
                \<and> (\<forall>d. deadline z = Some d \<longrightarrow> now + real_of_int w \<le> d)"
  shows "(\<exists>z. snd (requests db ip w m ts) (rate_key ip) = Some z
              \<and> (now, now) \<in> set (members z)
              \<and> (\<forall>d. deadline z = Some d \<longrightarrow> now + real_of_int w \<le> d))
         \<and> (m < 2 \<and> now \<notin> set ts \<longrightarrow> (\<forall>ok \<in> set (fst (requests db ip w m ts)). \<not> ok))"
  using ts inv
proof (induction ts arbitrary: db)
  case Nil
  then show ?case by simp
next
  case (Cons t ts)
  from Cons.prems(1) have t: "now \<le> t" "t < now + real_of_int w" by simp_all
  note step = later_step [where db = db and ip = ip and m = m, OF w t Cons.prems(2)]
  from Cons.prems(1) have "\<forall>t \<in> set ts. now \<le> t \<and> t < now + real_of_int w" by simp
  then have "(\<exists>z. snd (requests (snd (check_rate_limit t db ip w m)) ip w m ts) (rate_key ip) = Some z
              \<and> (now, now) \<in> set (members z)
              \<and> (\<forall>d. deadline z = Some d \<longrightarrow> now + real_of_int w \<le> d))
         \<and> (m < 2 \<and> now \<notin> set ts \<longrightarrow>
               (\<forall>ok \<in> set (fst (requests (snd (check_rate_limit t db ip w m)) ip w m ts)). \<not> ok))"
    using step(1) by (rule Cons.IH)
  with step(2) show ?case
    by (auto simp add: requests_Cons simp del: requests.simps(2))
qed

text \<open>
  C9. The claim: after every call of the rate limiter, denied or not, the window state of
  the source contains the timestamp of the call and no timestamp older than
  \<open>now - window\<close>. With a window of 0 the range removed reaches up to \<open>now\<close>: the
  timestamp just recorded is removed again and nothing is stored.
\<close>

theorem zero_window_forgets_request:
  "1000 \<notin> set (window_state (snd (check_rate_limit 1000 Map.empty ''203.0.113.7'' 0 100))
                   ''203.0.113.7'')"
  by (simp add: check_rate_limit_step live_def window_state_def)

text \<open>
  C9, amended: after every call with a positive window, at a time that is not negative
  and on a store whose timestamps for the source are not negative, the window state of
  the source contains the timestamp of the call, and every timestamp in it is later than
  \<open>now - window\<close> (and not negative); this does not depend on the flag returned. The
  timestamp is still in the window state after any sequence of further checks of the
  source, each made at or after \<open>now\<close> and less than \<open>window\<close> seconds after it, and it
  is counted in each of them: with a maximum below 2, every such check at a time other
  than \<open>now\<close> is denied.
\<close>

theorem window_state_after_check:
  assumes "0 < window" and "0 \<le> now" and "\<forall>s \<in> set (window_state db ip). 0 \<le> s"
  shows "now \<in> set (window_state (snd (check_rate_limit now db ip window max_requests)) ip)
     \<and> (\<forall>s \<in> set (window_state (snd (check_rate_limit now db ip window max_requests)) ip).
           now - real_of_int window < s \<and> 0 \<le> s)
     \<and> ((\<forall>t \<in> set ts. now \<le> t \<and> t < now + real_of_int window) \<longrightarrow>
           now \<in> set (window_state
                        (snd (requests (snd (check_rate_limit now db ip window max_requests))
                               ip window later_max ts)) ip)
           \<and> (later_max < 2 \<and> now \<notin> set ts \<longrightarrow>
                 (\<forall>ok \<in> set (fst (requests
                                     (snd (check_rate_limit now db ip window max_requests))
                                     ip window later_max ts)). \<not> ok)))"
proof -
  define M where "M = (case live now db (rate_key ip) of None \<Rightarrow> [] | Some z \<Rightarrow> members z)"
  define K where
    "K = filter (\<lambda>e. if 0 \<le> snd e then now - real_of_int window < snd e else True)
           (zset_add now now M)"
  define db1 where "db1 = snd (check_rate_limit now db ip window max_requests)"
  have res: "db1 = db(rate_key ip \<mapsto> \<lparr>members = K, deadline = Some (now + real_of_int window)\<rparr>)"
    unfolding db1_def K_def M_def using assms(1) by (simp add: step_result)
  have ws: "window_state db1 ip = map snd K"
    by (simp add: res window_state_def)
  have M: "0 \<le> snd e" if "e \<in> set M" for e
  proof (cases "live now db (rate_key ip)")
    case None
    with that show ?thesis by (simp add: M_def)
  next
    case (Some z)
    then have "db (rate_key ip) = Some z" by (rule live_stored)
    with assms(3) Some that show ?thesis by (auto simp add: M_def window_state_def)
  qed
  have new: "(now, now) \<in> set K"
    using assms(1) by (simp add: K_def zset_add_new)
  then have a: "now \<in> set (window_state db1 ip)"
    unfolding ws by force
  have b: "now - real_of_int window < s \<and> 0 \<le> s" if "s \<in> set (window_state db1 ip)" for s
  proof -
    from that obtain e where e: "e \<in> set K" "s = snd e" by (auto simp add: ws)
    then have "e \<in> set (zset_add now now M)" by (simp add: K_def)
    then have "e = (now, now) \<or> e \<in> set M" by (rule zset_add_scores)
    with assms(2) M [of e] have "0 \<le> snd e" by auto
    with e show ?thesis by (simp add: K_def)
  qed
  have inv1: "\<exists>z. db1 (rate_key ip) = Some z \<and> (now, now) \<in> set (members z)
                \<and> (\<forall>d. deadline z = Some d \<longrightarrow> now + real_of_int window \<le> d)"
    using new by (simp add: res)
  have c: "(\<exists>z. snd (requests db1 ip window later_max ts) (rate_key ip) = Some z
              \<and> (now, now) \<in> set (members z)
              \<and> (\<forall>d. deadline z = Some d \<longrightarrow> now + real_of_int window \<le> d))
         \<and> (later_max < 2 \<and> now \<notin> set ts \<longrightarrow>
               (\<forall>ok \<in> set (fst (requests db1 ip window later_max ts)). \<not> ok))"
    if l: "\<forall>t \<in> set ts. now \<le> t \<and> t < now + real_of_int window"
    using assms(1) l inv1 by (rule later_checks)
  have c1: "now \<in> set (window_state (snd (requests db1 ip window later_max ts)) ip)"
    if l: "\<forall>t \<in> set ts. now \<le> t \<and> t < now + real_of_int window"
  proof -
    from c [OF l] obtain z
      where z: "snd (requests db1 ip window later_max ts) (rate_key ip) = Some z"
        "(now, now) \<in> set (members z)" by blast
    from z(2) have "snd (now, now) \<in> snd ` set (members z)" by (rule imageI)
    with z(1) show ?thesis by (simp add: window_state_def)
  qed
  have c2: "later_max < 2 \<and> now \<notin> set ts \<longrightarrow>
              (\<forall>ok \<in> set (fst (requests db1 ip window later_max ts)). \<not> ok)"
    if l: "\<forall>t \<in> set ts. now \<le> t \<and> t < now + real_of_int window"
    using c [OF l] by (rule conjunct2)
  show ?thesis
    unfolding db1_def [symmetric]
  proof (intro conjI impI)
    show "now \<in> set (window_state db1 ip)" by (rule a)
    show "\<forall>s \<in> set (window_state db1 ip). now - real_of_int window < s \<and> 0 \<le> s"
      using b by (rule ballI)
  next
    assume l: "\<forall>t \<in> set ts. now \<le> t \<and> t < now + real_of_int window"
    then show "now \<in> set (window_state (snd (requests db1 ip window later_max ts)) ip)"
      by (rule c1)
    assume "later_max < 2 \<and> now \<notin> set ts"
    with c2 [OF l]
    show "\<forall>ok \<in> set (fst (requests db1 ip window later_max ts)). \<not> ok"
      by (rule mp)
  qed
qed

theorem window_state_after_check_witness:
  "fst (check_rate_limit 1000 Map.empty ''203.0.113.7'' 60 0) = False
   \<and> 1000 \<in> set (window_state (snd (check_rate_limit 1000 Map.empty ''203.0.113.7'' 60 0))
                    ''203.0.113.7'')
   \<and> 1000 \<in> set (window_state
                    (snd (requests (snd (check_rate_limit 1000 Map.empty ''203.0.113.7'' 60 0))
                           ''203.0.113.7'' 60 0 [1010, 1020, 1059])) ''203.0.113.7'')
   \<and> fst (requests (snd (check_rate_limit 1000 Map.empty ''203.0.113.7'' 60 0))
            ''203.0.113.7'' 60 0 [1010, 1020, 1059]) = [False, False, False]"
  using window_state_after_check [where window = 60 and now = 1000 and db = Map.empty
      and ip = "''203.0.113.7''" and ts = "[1010, 1020, 1059]" and max_requests = 0
      and later_max = 0]
  by (simp add: window_state_def check_rate_limit_step live_def)

text \<open>Three denied calls in a row: all three timestamps are kept.\<close>

lemma three_denied_calls:
  "fst (requests Map.empty ''203.0.113.7'' 60 0 [1000, 1010, 1020]) = [False, False, False]
   \<and> window_state (snd (requests Map.empty ''203.0.113.7'' 60 0 [1000, 1010, 1020]))
        ''203.0.113.7'' = [1000, 1010, 1020]"
  by (simp add: window_state_def check_rate_limit_step live_def)

end
